theory Spec2Isabelle
  imports
    Main
    "HOL-Library.Char_ord"
    "HOL-Library.List_Lexorder"
    "HOL-Library.Sublist"
    "HOL-Library.Multiset"
begin

section \<open>clean\_dir\_list.py: a sorted listing of the files below a directory\<close>

text \<open>
  The script walks a directory with \<^verbatim>\<open>os.walk\<close>, prunes sub-directories whose name is
  in an exclude set, collects the relative posix path of every file name the walk
  reports, sorts the list and prints it, either whole or restricted to a fixed example
  list. This theory embeds \<^verbatim>\<open>gather_files\<close>, \<^verbatim>\<open>print_all_files\<close>,
  \<^verbatim>\<open>print_only_example\<close> and \<^verbatim>\<open>main\<close> together with the part of the Python
  library they rest on (\<^verbatim>\<open>os.walk\<close>, the string of a \<^verbatim>\<open>pathlib.Path\<close>, its
  \<^verbatim>\<open>exists\<close> and \<^verbatim>\<open>is_dir\<close>), on a POSIX system.

  Strings are \<^typ>\<open>string\<close>, lists of bytes. Python compares \<^verbatim>\<open>str\<close> values code point
  by code point, a proper prefix first; on the UTF-8 encoding that is the bytewise
  lexicographic order, which is the order of \<^typ>\<open>string\<close> here
  (\<^verbatim>\<open>Char_ord\<close>, \<^verbatim>\<open>List_Lexorder\<close>).
\<close>

subsection \<open>The file system\<close>

text \<open>
  What a directory scan can meet. \<^verbatim>\<open>os.walk\<close> classifies an entry with
  \<^verbatim>\<open>DirEntry.is_dir()\<close>, which follows symbolic links, and decides whether to descend with
  \<^verbatim>\<open>os.path.islink\<close>. So four kinds of entry behave differently or are told apart by the
  specification: a regular file (or a link to one); any other entry that is not a
  directory (a FIFO, a socket, a device, a dangling link); a real directory with
  its entries in the order the scan enumerates them; and a symbolic link whose target is
  a directory, with the entries of that target.
\<close>

datatype node =
    Regular
  | Special
  | Directory "(string \<times> node) list"
  | DirLink "(string \<times> node) list"

type_synonym entries = "(string \<times> node) list"

text \<open>
  A path handed to the operating system resolves, links followed, to the node found
  there, or to nothing.
\<close>

type_synonym filesystem = "string \<Rightarrow> node option"

text \<open>The parts of a relative \<^verbatim>\<open>pathlib\<close> path; the empty list is the path \<^verbatim>\<open>.\<close>\<close>

type_synonym path = "string list"

fun is_dir :: "node \<Rightarrow> bool" where
  "is_dir (Directory es) = True"
| "is_dir (DirLink es) = True"
| "is_dir Regular = False"
| "is_dir Special = False"

text \<open>
  \<^verbatim>\<open>os.scandir(p)\<close>: the entries of the directory at \<^verbatim>\<open>p\<close> (through a link as
  well), and \<open>None\<close> for the \<^verbatim>\<open>OSError\<close> raised when \<^verbatim>\<open>p\<close> is missing or is not a
  directory.
\<close>

fun listdir :: "node \<Rightarrow> entries option" where
  "listdir (Directory es) = Some es"
| "listdir (DirLink es) = Some es"
| "listdir Regular = None"
| "listdir Special = None"

definition scandir :: "filesystem \<Rightarrow> string \<Rightarrow> entries option" where
  "scandir fs p = (case fs p of None \<Rightarrow> None | Some n \<Rightarrow> listdir n)"

subsection \<open>The constants of the script\<close>

definition EXAMPLE_FILES :: "string list" where
  "EXAMPLE_FILES =
    [''package.json'',
     ''src/main.tsx'',
     ''src/App.tsx'',
     ''src/lib/supabaseClient.ts'',
     ''src/contexts/AuthProvider.tsx'',
     ''src/components/Navbar.tsx'',
     ''src/components/AuthModal.tsx'',
     ''src/pages/Dashboard.tsx'',
     ''src/pages/Explore.tsx'',
     ''src/db/migrations/001_create_profiles.sql'',
     ''README_SUBTASK1.md'']"

definition DEFAULT_EXCLUDE_DIRS :: "string set" where
  "DEFAULT_EXCLUDE_DIRS =
    {''node_modules'', ''.git'', ''dist'', ''build'', ''.vite'', ''.cache'',
     ''.parcel-cache'', ''__pycache__''}"

subsection \<open>\<^verbatim>\<open>os.walk(root, topdown=True, followlinks=False)\<close>\<close>

text \<open>
  At every directory \<^verbatim>\<open>os.walk\<close> scans the entries, puts the names for which
  \<^verbatim>\<open>is_dir()\<close> holds into \<^verbatim>\<open>dirs\<close> and the others into \<^verbatim>\<open>nondirs\<close>, yields
  \<^verbatim>\<open>(top, dirs, nondirs)\<close> and, when the consumer hands control back, walks
  \<^verbatim>\<open>join(top, d)\<close> for each \<^verbatim>\<open>d\<close> still in \<^verbatim>\<open>dirs\<close>, in order, unless that path is a
  symbolic link. The consumer may have changed \<^verbatim>\<open>dirs\<close> in place in between: that is
  the function \<open>prune\<close>. A path that cannot be scanned yields nothing (the \<^verbatim>\<open>OSError\<close> is
  swallowed, \<^verbatim>\<open>onerror\<close> being \<^verbatim>\<open>None\<close>).

  The first component of a yielded triple is kept relative to the root of the walk, as
  the list of directory names descended: it is \<^verbatim>\<open>Path(dirpath).relative_to(root)\<close>.
\<close>

definition dirs_of :: "entries \<Rightarrow> string list" where
  "dirs_of es = map fst (filter (\<lambda>e. is_dir (snd e)) es)"

definition nondirs_of :: "entries \<Rightarrow> string list" where
  "nondirs_of es = map fst (filter (\<lambda>e. \<not> is_dir (snd e)) es)"

function os_walk ::
  "(string list \<Rightarrow> string list) \<Rightarrow> path \<Rightarrow> entries \<Rightarrow> (path \<times> string list \<times> string list) list"
where
  "os_walk prune dirpath es =
     (let dirs = prune (dirs_of es);
          nondirs = nondirs_of es
      in (dirpath, dirs, nondirs) #
         concat (map (\<lambda>d. case map_of es d of
                             Some (Directory sub) \<Rightarrow> os_walk prune (dirpath @ [d]) sub
                           | _ \<Rightarrow> [])
                     dirs))"
  by pat_completeness auto
termination
proof (relation "measure (\<lambda>(prune, dirpath, es). size_list (size_prod (\<lambda>_. 0) size) es)")
  show "wf (measure (\<lambda>(prune :: string list \<Rightarrow> string list, dirpath :: path, es :: entries).
            size_list (size_prod (\<lambda>_. 0) size) es))"
    by simp
next
  fix prune :: "string list \<Rightarrow> string list" and dirpath :: path and es :: entries
    and dirs nondirs :: "string list" and d :: string and c :: node and sub :: entries
  assume "map_of es d = Some c" "c = Directory sub"
  then have "(d, Directory sub) \<in> set es" by (auto dest: map_of_SomeD)
  then have "size_prod (\<lambda>_. 0) size (d, Directory sub) \<le> size_list (size_prod (\<lambda>_. 0) size) es"
    by (rule size_list_estimation') simp
  then show "((prune, dirpath @ [d], sub), (prune, dirpath, es))
      \<in> measure (\<lambda>(prune, dirpath, es). size_list (size_prod (\<lambda>_. 0) size) es)"
    by simp
qed

declare os_walk.simps [simp del]

subsection \<open>\<^verbatim>\<open>gather_files\<close>\<close>

text \<open>
  \<^verbatim>\<open>"/".join(parts)\<close>, and \<^verbatim>\<open>PurePath.as_posix()\<close> of a relative path: its parts
  joined by a forward slash, \<^verbatim>\<open>.\<close> when it has none.
\<close>

fun join_sep :: "string list \<Rightarrow> string" where
  "join_sep [] = []"
| "join_sep [x] = x"
| "join_sep (x # y # ys) = x @ ''/'' @ join_sep (y # ys)"

definition as_posix :: "path \<Rightarrow> string" where
  "as_posix p = (if p = [] then ''.'' else join_sep p)"

text \<open>
  The relative path the loop body builds for the file name \<open>f\<close> met in the directory
  \<open>rel_dir\<close>. The test \<^verbatim>\<open>str(rel_dir) == "."\<close> holds exactly when \<open>rel_dir\<close> has no
  parts: \<^verbatim>\<open>pathlib\<close> drops every \<^verbatim>\<open>.\<close> part when it parses a path, so a path with
  parts never prints as \<^verbatim>\<open>.\<close>.
\<close>

definition rel_path :: "path \<Rightarrow> string \<Rightarrow> string" where
  "rel_path rel_dir f = (if rel_dir = [] then f else as_posix (rel_dir @ [f]))"

text \<open>
  \<^verbatim>\<open>root.resolve()\<close> makes the root absolute and resolves links; it names the same
  node, so the walk starts from the entries \<open>fs\<close> gives for \<open>root\<close>. When \<open>root\<close>
  cannot be scanned the walk yields nothing and the result is empty.
\<close>

definition walk_root ::
  "filesystem \<Rightarrow> string \<Rightarrow> (string list \<Rightarrow> string list) \<Rightarrow> (path \<times> string list \<times> string list) list"
where
  "walk_root fs root prune =
     (case scandir fs root of None \<Rightarrow> [] | Some es \<Rightarrow> os_walk prune [] es)"

text \<open>
  The walk as \<^verbatim>\<open>gather_files\<close> drives it: the loop body replaces the contents of
  \<^verbatim>\<open>dirnames\<close> by the names that are not in \<^verbatim>\<open>exclude_dirs\<close> before the generator
  is resumed.
\<close>

definition traversal ::
  "filesystem \<Rightarrow> string \<Rightarrow> string set \<Rightarrow> (path \<times> string list \<times> string list) list"
where
  "traversal fs root exclude_dirs = walk_root fs root (filter (\<lambda>d. d \<notin> exclude_dirs))"

definition collect :: "(path \<times> string list \<times> string list) list \<Rightarrow> string list" where
  "collect triples =
     concat (map (\<lambda>(rel_dir, dirnames, filenames). map (rel_path rel_dir) filenames) triples)"

definition gather_files :: "filesystem \<Rightarrow> string \<Rightarrow> string set \<Rightarrow> string list" where
  "gather_files fs root exclude_dirs =
     (let results = collect (traversal fs root exclude_dirs)
      in sort results)"

subsection \<open>Printing\<close>

text \<open>
  \<^verbatim>\<open>print\<close> hands a string to standard output. The list holds the strings handed over
  so far, in order, one for each call; whether standard output takes them is settled
  where the run ends, in \<open>finish\<close> below.
\<close>

definition print :: "string \<Rightarrow> string list \<Rightarrow> string list" where
  "print line out = out @ [line]"

definition print_all_files ::
  "filesystem \<Rightarrow> string \<Rightarrow> string set \<Rightarrow> string list \<Rightarrow> string list"
where
  "print_all_files fs root exclude_dirs out =
     (let files = gather_files fs root exclude_dirs
      in fold print files out)"

definition print_only_example ::
  "filesystem \<Rightarrow> string \<Rightarrow> string set \<Rightarrow> string list \<Rightarrow> string list"
where
  "print_only_example fs root exclude_dirs out =
     (let found = set (gather_files fs root exclude_dirs)
      in fold (\<lambda>p out. if p \<in> found then print p out else out) EXAMPLE_FILES out)"

subsection \<open>\<^verbatim>\<open>main\<close>\<close>

text \<open>
  \<^verbatim>\<open>str(Path(s))\<close> on POSIX. \<^verbatim>\<open>pathlib\<close> splits off the root (one slash, or two when
  the string starts with exactly two), splits the rest at the slashes, drops the empty
  parts and the parts \<^verbatim>\<open>.\<close>, and prints the root followed by the parts joined by
  slashes, or \<^verbatim>\<open>.\<close> when that is empty.
\<close>

fun split_sep :: "string \<Rightarrow> string list" where
  "split_sep [] = [[]]"
| "split_sep (c # cs) =
     (if c = CHR ''/'' then [] # split_sep cs
      else (case split_sep cs of x # xs \<Rightarrow> (c # x) # xs | [] \<Rightarrow> [[c]]))"

definition splitroot :: "string \<Rightarrow> string \<times> string" where
  "splitroot p =
     (if take 1 p \<noteq> ''/'' then ([], p)
      else if take 1 (drop 1 p) \<noteq> ''/'' \<or> take 1 (drop 2 p) = ''/'' then (''/'', drop 1 p)
      else (take 2 p, drop 2 p))"

definition Path :: "string \<Rightarrow> string" where
  "Path s =
     (let (anchor, rel) = splitroot s;
          parts = filter (\<lambda>x. x \<noteq> [] \<and> x \<noteq> ''.'') (split_sep rel);
          r = anchor @ join_sep parts
      in if r = [] then ''.'' else r)"

text \<open>
  \<^verbatim>\<open>Path.exists()\<close> and \<^verbatim>\<open>Path.is_dir()\<close> (Python 3.11) call \<^verbatim>\<open>os.stat\<close>, which
  follows links. When \<^verbatim>\<open>stat\<close> raises an \<^verbatim>\<open>OSError\<close> whose \<^verbatim>\<open>errno\<close> is one of
  \<^verbatim>\<open>ENOENT\<close>, \<^verbatim>\<open>ENOTDIR\<close>, \<^verbatim>\<open>EBADF\<close>, \<^verbatim>\<open>ELOOP\<close>, or a \<^verbatim>\<open>ValueError\<close> (a path that
  cannot be encoded), they answer \<^verbatim>\<open>False\<close>; any other \<^verbatim>\<open>OSError\<close> (permission denied,
  name too long) is raised again. The numbers are those of Linux.
\<close>

definition ENOENT :: nat where
  "ENOENT = 2"

definition EBADF :: nat where
  "EBADF = 9"

definition EACCES :: nat where
  "EACCES = 13"

definition ENOTDIR :: nat where
  "ENOTDIR = 20"

definition ENAMETOOLONG :: nat where
  "ENAMETOOLONG = 36"

definition ELOOP :: nat where
  "ELOOP = 40"

definition IGNORED_ERRNOS :: "nat set" where
  "IGNORED_ERRNOS = {ENOENT, ENOTDIR, EBADF, ELOOP}"

datatype exn = OSError nat | ValueError | UnicodeEncodeError

text \<open>
  What the run meets outside the tree: the exception \<^verbatim>\<open>os.stat\<close> raises on a path that
  resolves to nothing, and the strings the encoder of standard output accepts.
\<close>

record env =
  stat_failure :: "string \<Rightarrow> exn"
  stdout_accepts :: "string \<Rightarrow> bool"

definition stat :: "filesystem \<Rightarrow> env \<Rightarrow> string \<Rightarrow> exn + node" where
  "stat fs env p = (case fs p of Some n \<Rightarrow> Inr n | None \<Rightarrow> Inl (stat_failure env p))"

definition ignore_error :: "exn \<Rightarrow> bool" where
  "ignore_error e = (case e of OSError errno \<Rightarrow> errno \<in> IGNORED_ERRNOS | _ \<Rightarrow> False)"

definition path_exists :: "filesystem \<Rightarrow> env \<Rightarrow> string \<Rightarrow> exn + bool" where
  "path_exists fs env p =
     (case stat fs env p of
        Inr n \<Rightarrow> Inr True
      | Inl ValueError \<Rightarrow> Inr False
      | Inl e \<Rightarrow> if ignore_error e then Inr False else Inl e)"

definition path_is_dir :: "filesystem \<Rightarrow> env \<Rightarrow> string \<Rightarrow> exn + bool" where
  "path_is_dir fs env p =
     (case stat fs env p of
        Inr n \<Rightarrow> Inr (is_dir n)
      | Inl ValueError \<Rightarrow> Inr False
      | Inl e \<Rightarrow> if ignore_error e then Inr False else Inl e)"

text \<open>
  The condition \<^verbatim>\<open>not root.exists() or not root.is_dir()\<close>: \<^verbatim>\<open>is_dir\<close> is called only
  when \<^verbatim>\<open>exists\<close> answered \<^verbatim>\<open>True\<close>, and an exception of either call is the outcome.
\<close>

definition root_invalid :: "filesystem \<Rightarrow> env \<Rightarrow> string \<Rightarrow> exn + bool" where
  "root_invalid fs env root =
     (case path_exists fs env root of
        Inl e \<Rightarrow> Inl e
      | Inr found \<Rightarrow>
          if \<not> found then Inr True
          else (case path_is_dir fs env root of Inl e \<Rightarrow> Inl e | Inr d \<Rightarrow> Inr (\<not> d)))"

text \<open>
  The namespace \<^verbatim>\<open>argparse\<close> returns: the model of \<^verbatim>\<open>main\<close> starts after
  \<^verbatim>\<open>parse_args()\<close>.
\<close>

record args =
  args_root :: string
  args_only_example :: bool
  args_ignore :: "string list"

text \<open>The text of the diagnostic, \<^verbatim>\<open>f"[error] root path '{root}' does not exist ..."\<close>.\<close>

definition error_line :: "string \<Rightarrow> string" where
  "error_line root =
     ''[error] root path '' @ [CHR 0x27] @ root @ [CHR 0x27] @
     '' does not exist or is not a directory.''"

text \<open>
  How a run ends. An exception that nothing catches ends the script with a traceback on
  standard error and exit status 1. The strings handed to \<^verbatim>\<open>print\<close> reach standard
  output in order; at the first one its encoder refuses, \<^verbatim>\<open>print\<close> raises
  \<^verbatim>\<open>UnicodeEncodeError\<close>, which nothing catches, and no later statement runs. Nothing
  but printing happens between the first \<^verbatim>\<open>print\<close> and the end of \<^verbatim>\<open>main\<close>, so the
  run is given by the strings handed over and the status it would end with.
\<close>

definition uncaught :: "exn \<Rightarrow> string list \<Rightarrow> string list \<times> nat" where
  "uncaught e out = (out, 1)"

definition finish :: "env \<Rightarrow> string list \<Rightarrow> nat \<Rightarrow> string list \<times> nat" where
  "finish env out status =
     (if list_all (stdout_accepts env) out then (out, status)
      else uncaught UnicodeEncodeError (takeWhile (stdout_accepts env) out))"

text \<open>
  \<^verbatim>\<open>main\<close> returns what reached standard output and the exit status of the process:
  \<open>2\<close> for \<^verbatim>\<open>SystemExit(2)\<close>, \<open>0\<close> when it returns, \<open>1\<close> for an exception nothing
  catches. The default exclude set is a parameter of \<open>main_with\<close>, so that a run with
  another built-in set can be compared; \<open>main\<close> is the script's, with
  \<^verbatim>\<open>DEFAULT_EXCLUDE_DIRS\<close>.
\<close>

definition main_with ::
  "string set \<Rightarrow> filesystem \<Rightarrow> env \<Rightarrow> args \<Rightarrow> string list \<times> nat"
where
  "main_with default_exclude_dirs fs env args =
     (let root = Path (args_root args) in
      case root_invalid fs env root of
        Inl e \<Rightarrow> uncaught e []
      | Inr invalid \<Rightarrow>
          if invalid then finish env (print (error_line root) []) 2
          else
            (let exclude = default_exclude_dirs \<union> set (args_ignore args) in
             if args_only_example args then finish env (print_only_example fs root exclude []) 0
             else finish env (print_all_files fs root exclude []) 0))"

definition main :: "filesystem \<Rightarrow> env \<Rightarrow> args \<Rightarrow> string list \<times> nat" where
  "main fs env args = main_with DEFAULT_EXCLUDE_DIRS fs env args"

section \<open>The notions of the specification\<close>

text \<open>
  What the specification speaks of and the script does not compute: the directories a
  walk can reach, the files located below a directory, well-formed names, another order
  of enumeration. They are functions too, so that they can be evaluated on an example.
\<close>

text \<open>
  The directory found by descending from the entries \<open>es\<close> along the names \<open>ds\<close>, when
  no name on the way is excluded and every name is that of a real directory (not of a
  symbolic link, not of a file): the directories reachable from the root outside the
  excluded subtrees.
\<close>

fun dir_at :: "string set \<Rightarrow> entries \<Rightarrow> path \<Rightarrow> entries option" where
  "dir_at ex es [] = Some es"
| "dir_at ex es (d # ds) =
     (if d \<in> ex then None
      else (case map_of es d of
              Some (Directory sub) \<Rightarrow> dir_at ex sub ds
            | _ \<Rightarrow> None))"

text \<open>
  The paths of the entries that are not directories, in the root and in every directory
  reachable from it; and, as the specification words it, the paths of the regular files
  among them.
\<close>

definition listed_files :: "string set \<Rightarrow> entries \<Rightarrow> string set" where
  "listed_files ex es =
     {rel_path ds f | ds f sub. dir_at ex es ds = Some sub \<and> f \<in> set (nondirs_of sub)}"

definition regular_files :: "string set \<Rightarrow> entries \<Rightarrow> string set" where
  "regular_files ex es =
     {rel_path ds f | ds f sub. dir_at ex es ds = Some sub \<and> (f, Regular) \<in> set sub}"

text \<open>
  The node a relative path names below a node, as the operating system resolves it:
  symbolic links to directories are followed.
\<close>

fun resolve :: "node \<Rightarrow> path \<Rightarrow> node option" where
  "resolve n [] = Some n"
| "resolve n (x # xs) =
     (case listdir n of
        None \<Rightarrow> None
      | Some es \<Rightarrow> (case map_of es x of None \<Rightarrow> None | Some c \<Rightarrow> resolve c xs))"

text \<open>No name below the node holds a slash: every file system guarantees it.\<close>

fun names_ok :: "node \<Rightarrow> bool" where
  "names_ok (Directory es) = (\<forall>e \<in> set es. CHR ''/'' \<notin> set (fst e) \<and> names_ok (snd e))"
| "names_ok (DirLink es) = (\<forall>e \<in> set es. CHR ''/'' \<notin> set (fst e) \<and> names_ok (snd e))"
| "names_ok Regular = True"
| "names_ok Special = True"

text \<open>No directory below the node holds two entries of the same name.\<close>

fun distinct_names :: "node \<Rightarrow> bool" where
  "distinct_names (Directory es) = (distinct (map fst es) \<and> (\<forall>e \<in> set es. distinct_names (snd e)))"
| "distinct_names (DirLink es) = (distinct (map fst es) \<and> (\<forall>e \<in> set es. distinct_names (snd e)))"
| "distinct_names Regular = True"
| "distinct_names Special = True"

text \<open>\<^verbatim>\<open>Path.name\<close>: what follows the last slash.\<close>

definition basename :: "string \<Rightarrow> string" where
  "basename p = last (split_sep p)"

text \<open>
  The same tree as a scan would present it if every directory enumerated its entries in
  another order: \<open>scan\<close> rearranges the entries of each directory.
\<close>

fun reorder :: "(entries \<Rightarrow> entries) \<Rightarrow> node \<Rightarrow> node" where
  "reorder scan (Directory es) = Directory (scan (map (\<lambda>e. (fst e, reorder scan (snd e))) es))"
| "reorder scan (DirLink es) = DirLink (scan (map (\<lambda>e. (fst e, reorder scan (snd e))) es))"
| "reorder scan Regular = Regular"
| "reorder scan Special = Special"

subsection \<open>Example trees\<close>

text \<open>The project of the specification's scenario, with a linked directory added.\<close>

definition demo_entries :: entries where
  "demo_entries =
     [(''package.json'', Regular),
      (''node_modules'', Directory [(''pkg'', Directory [(''index.js'', Regular)])]),
      (''src'', Directory [(''App.tsx'', Regular)]),
      (''vendor'', DirLink [(''lib.js'', Regular)])]"

definition fs_demo :: filesystem where
  "fs_demo p = (if p = ''/proj'' then Some (Directory demo_entries) else None)"

text \<open>A root directory that holds a single FIFO.\<close>

definition fs_fifo :: filesystem where
  "fs_fifo p = (if p = ''/srv'' then Some (Directory [(''fifo'', Special)]) else None)"

text \<open>A root directory that is itself named \<^verbatim>\<open>build\<close>.\<close>

definition fs_build :: filesystem where
  "fs_build p =
     (if p = ''/work/build''
      then Some (Directory [(''out.txt'', Regular), (''build'', Directory [(''x.o'', Regular)])])
      else None)"

text \<open>A file system in which no path resolves.\<close>

definition fs_empty :: filesystem where
  "fs_empty p = None"

text \<open>A root that holds a name which is not UTF-8 text (the byte \<open>0xFF\<close>).\<close>

definition fs_raw :: filesystem where
  "fs_raw p =
     (if p = ''/data'' then Some (Directory [([CHR 0xFF], Regular), (''a.txt'', Regular)])
      else None)"

text \<open>
  Three surroundings: missing paths fail with \<^verbatim>\<open>ENOENT\<close> and standard output takes
  every string; missing paths fail with \<^verbatim>\<open>EACCES\<close>; and standard output refuses the
  strings that hold the byte \<open>0xFF\<close>, as a UTF-8 encoder does with a name it could not
  decode.
\<close>

definition env_plain :: env where
  "env_plain = \<lparr>stat_failure = (\<lambda>p. OSError ENOENT), stdout_accepts = (\<lambda>s. True)\<rparr>"

definition env_locked :: env where
  "env_locked = \<lparr>stat_failure = (\<lambda>p. OSError EACCES), stdout_accepts = (\<lambda>s. True)\<rparr>"

definition env_strict :: env where
  "env_strict =
     \<lparr>stat_failure = (\<lambda>p. OSError ENOENT), stdout_accepts = (\<lambda>s. CHR 0xFF \<notin> set s)\<rparr>"

section \<open>Lemmas\<close>

lemma map_of_Directory_in_dirs:
  "map_of es d = Some (Directory sub) \<Longrightarrow> d \<in> set (dirs_of es)"
  by (force simp: dirs_of_def dest: map_of_SomeD)

lemma os_walk_mem_unfold:
  "x \<in> set (os_walk prune dp es) \<longleftrightarrow>
     x = (dp, prune (dirs_of es), nondirs_of es) \<or>
     (\<exists>d sub. d \<in> set (prune (dirs_of es)) \<and> map_of es d = Some (Directory sub) \<and>
        x \<in> set (os_walk prune (dp @ [d]) sub))"
  by (subst os_walk.simps) (auto simp: Let_def split: option.splits node.splits)

lemma os_walk_iff:
  "(p, dn, fn) \<in> set (os_walk (filter (\<lambda>d. d \<notin> ex)) dp es) \<longleftrightarrow>
     (\<exists>ds sub. p = dp @ ds \<and> dir_at ex es ds = Some sub \<and>
        dn = filter (\<lambda>d. d \<notin> ex) (dirs_of sub) \<and> fn = nondirs_of sub)"
proof (induction "filter (\<lambda>d. d \<notin> ex)" dp es arbitrary: p dn fn rule: os_walk.induct)
  case (1 dp es)
  let ?prune = "filter (\<lambda>d. d \<notin> ex)"
  have IH: "\<And>d sub p dn fn. d \<in> set (?prune (dirs_of es)) \<Longrightarrow> map_of es d = Some (Directory sub) \<Longrightarrow>
     ((p, dn, fn) \<in> set (os_walk ?prune (dp @ [d]) sub)) =
     (\<exists>ds sub'. p = (dp @ [d]) @ ds \<and> dir_at ex sub ds = Some sub' \<and>
        dn = ?prune (dirs_of sub') \<and> fn = nondirs_of sub')"
    using 1 by blast
  show ?case (is "?L = ?R")
  proof
    assume ?L
    then consider (here) "p = dp" "dn = ?prune (dirs_of es)" "fn = nondirs_of es"
      | (below) d sub where "d \<in> set (?prune (dirs_of es))" "map_of es d = Some (Directory sub)"
          "(p, dn, fn) \<in> set (os_walk ?prune (dp @ [d]) sub)"
      using os_walk_mem_unfold[of "(p, dn, fn)" ?prune dp es] by blast
    then show ?R
    proof cases
      case here
      then show ?thesis by (intro exI[of _ "[]"] exI[of _ es]) simp
    next
      case (below d sub)
      then obtain ds sub' where "p = (dp @ [d]) @ ds" "dir_at ex sub ds = Some sub'"
        "dn = ?prune (dirs_of sub')" "fn = nondirs_of sub'"
        using IH by blast
      with below show ?thesis by (intro exI[of _ "d # ds"] exI[of _ sub']) simp
    qed
  next
    assume ?R
    then obtain ds sub where R: "p = dp @ ds" "dir_at ex es ds = Some sub"
        "dn = ?prune (dirs_of sub)" "fn = nondirs_of sub" by blast
    show ?L
    proof (cases ds)
      case Nil
      with R show ?thesis by (subst os_walk_mem_unfold) simp
    next
      case (Cons d ds')
      with R obtain sub0 where d: "d \<notin> ex" "map_of es d = Some (Directory sub0)"
          "dir_at ex sub0 ds' = Some sub"
        by (auto split: if_splits option.splits node.splits)
      have din: "d \<in> set (?prune (dirs_of es))"
        using d map_of_Directory_in_dirs by simp
      have "(p, dn, fn) \<in> set (os_walk ?prune (dp @ [d]) sub0)"
        using IH[OF din d(2)] R d Cons by auto
      with din d show ?thesis by (subst os_walk_mem_unfold) blast
    qed
  qed
qed

lemma fold_print_filter:
  "fold (\<lambda>p out. if P p then print p out else out) xs out = out @ filter P xs"
  by (induction xs arbitrary: out) (simp_all add: print_def)

lemma fold_print_all: "fold print xs out = out @ xs"
  by (induction xs arbitrary: out) (simp_all add: print_def)

lemma set_collect:
  "set (collect ts) = {rel_path p f | p dn fn f. (p, dn, fn) \<in> set ts \<and> f \<in> set fn}"
  by (auto simp: collect_def)

lemma set_collect_os_walk:
  "set (collect (os_walk (filter (\<lambda>d. d \<notin> ex)) [] es)) = listed_files ex es"
proof -
  have "set (collect (os_walk (filter (\<lambda>d. d \<notin> ex)) [] es)) =
      {rel_path p f | p dn fn f.
         (\<exists>sub. dir_at ex es p = Some sub \<and> dn = filter (\<lambda>d. d \<notin> ex) (dirs_of sub) \<and>
            fn = nondirs_of sub) \<and> f \<in> set fn}"
    by (simp add: set_collect os_walk_iff)
  also have "\<dots> = listed_files ex es"
    unfolding listed_files_def by blast
  finally show ?thesis .
qed

lemma set_gather_files:
  "set (gather_files fs root ex) =
     (case scandir fs root of None \<Rightarrow> {} | Some es \<Rightarrow> listed_files ex es)"
proof (cases "scandir fs root")
  case None
  then show ?thesis
    by (simp add: gather_files_def traversal_def walk_root_def collect_def)
next
  case (Some es)
  then show ?thesis
    by (simp add: gather_files_def traversal_def walk_root_def set_collect_os_walk)
qed

lemma sorted_gather_files: "sorted (gather_files fs root ex)"
  by (simp add: gather_files_def)

lemma dir_at_fifo:
  "dir_at {} [(''fifo'', Special)] ds = Some sub \<Longrightarrow> sub = [(''fifo'', Special)]"
  by (cases ds) (auto split: if_splits)

lemma split_sep_plain: "CHR ''/'' \<notin> set x \<Longrightarrow> split_sep x = [x]"
  by (induction x) auto

lemma split_sep_append: "CHR ''/'' \<notin> set x \<Longrightarrow> split_sep (x @ CHR ''/'' # r) = x # split_sep r"
  by (induction x) auto

lemma split_sep_join:
  "p \<noteq> [] \<Longrightarrow> \<forall>x \<in> set p. CHR ''/'' \<notin> set x \<Longrightarrow> split_sep (join_sep p) = p"
  by (induction p rule: join_sep.induct) (auto simp: split_sep_plain split_sep_append)

lemma join_sep_inj:
  assumes "p \<noteq> []" "q \<noteq> []" "\<forall>x \<in> set p. CHR ''/'' \<notin> set x" "\<forall>x \<in> set q. CHR ''/'' \<notin> set x"
    "join_sep p = join_sep q"
  shows "p = q"
  using assms split_sep_join by metis

lemma rel_path_join: "rel_path ds f = join_sep (ds @ [f])"
  by (cases ds) (simp_all add: rel_path_def as_posix_def)

lemma names_ok_map_of:
  "\<forall>e \<in> set es. CHR ''/'' \<notin> set (fst e) \<and> names_ok (snd e) \<Longrightarrow> map_of es x = Some c \<Longrightarrow>
     CHR ''/'' \<notin> set x \<and> names_ok c"
  by (auto dest!: map_of_SomeD)

lemma names_ok_listdir:
  "names_ok n \<Longrightarrow> listdir n = Some es \<Longrightarrow> \<forall>e \<in> set es. CHR ''/'' \<notin> set (fst e) \<and> names_ok (snd e)"
  by (cases n) auto

lemma names_ok_resolve:
  "names_ok n \<Longrightarrow> resolve n p = Some c \<Longrightarrow> (\<forall>x \<in> set p. CHR ''/'' \<notin> set x) \<and> names_ok c"
proof (induction n p rule: resolve.induct)
  case (1 n)
  then show ?case by simp
next
  case (2 n x xs)
  from 2(3) obtain es c' where es: "listdir n = Some es" "map_of es x = Some c'" "resolve c' xs = Some c"
    by (auto split: option.splits)
  from names_ok_map_of[OF names_ok_listdir[OF 2(2) es(1)] es(2)]
  have "CHR ''/'' \<notin> set x" "names_ok c'" by auto
  with 2(1)[OF es(1) es(2)] es(3) show ?case by simp
qed

lemma dir_at_resolve:
  "dir_at ex es ds = Some sub \<Longrightarrow> resolve (Directory es) ds = Some (Directory sub)"
  by (induction ex es ds rule: dir_at.induct) (auto split: if_splits option.splits node.splits)

lemma dir_at_not_excluded: "dir_at ex es ds = Some sub \<Longrightarrow> d \<in> set ds \<Longrightarrow> d \<notin> ex"
  by (induction ex es ds rule: dir_at.induct) (auto split: if_splits option.splits node.splits)

lemma dir_at_append:
  "dir_at ex es (ds @ ds') = Some sub \<Longrightarrow>
     \<exists>sub1. dir_at ex es ds = Some sub1 \<and> dir_at ex sub1 ds' = Some sub"
  by (induction ex es ds rule: dir_at.induct) (auto split: if_splits option.splits node.splits)

lemma nondirs_of_in: "f \<in> set (nondirs_of es) \<Longrightarrow> \<exists>c. (f, c) \<in> set es \<and> \<not> is_dir c"
  by (auto simp: nondirs_of_def)

lemma listed_files_parts:
  assumes ok: "names_ok (Directory es)"
    and p: "p \<noteq> []" "\<forall>x \<in> set p. CHR ''/'' \<notin> set x"
    and mem: "join_sep p \<in> listed_files ex es"
  shows "\<exists>sub. dir_at ex es (butlast p) = Some sub \<and> last p \<in> set (nondirs_of sub)"
proof -
  from mem obtain ds f sub where w: "join_sep p = rel_path ds f" "dir_at ex es ds = Some sub"
      "f \<in> set (nondirs_of sub)"
    unfolding listed_files_def by blast
  from names_ok_resolve[OF ok dir_at_resolve[OF w(2)]]
  have ds: "\<forall>x \<in> set ds. CHR ''/'' \<notin> set x" and sub: "names_ok (Directory sub)" by auto
  from nondirs_of_in[OF w(3)] sub have "CHR ''/'' \<notin> set f" by auto
  with ds have "\<forall>x \<in> set (ds @ [f]). CHR ''/'' \<notin> set x" by simp
  with p w(1) have "p = ds @ [f]"
    using join_sep_inj[of p "ds @ [f]"] by (simp add: rel_path_join)
  with w show ?thesis by simp
qed

lemma listed_files_excluded:
  assumes ok: "names_ok (Directory es)"
    and D: "D \<in> ex"
    and under: "resolve (Directory es) (ds @ D # ds' @ [f]) = Some n"
  shows "join_sep (ds @ D # ds' @ [f]) \<notin> listed_files ex es"
proof
  let ?p = "ds @ D # ds' @ [f]"
  assume mem: "join_sep ?p \<in> listed_files ex es"
  have parts: "\<forall>x \<in> set ?p. CHR ''/'' \<notin> set x"
    using names_ok_resolve[OF ok under] by blast
  from listed_files_parts[OF ok _ parts mem]
  obtain sub where "dir_at ex es (butlast ?p) = Some sub" by auto
  moreover have "butlast ?p = ds @ D # ds'" by (simp add: butlast_append)
  ultimately have "D \<notin> ex"
    using dir_at_not_excluded[of ex es "ds @ D # ds'" sub D] by simp
  with D show False by contradiction
qed

lemma concat_map_eq_snoc_Cons:
  "concat (map g ds) = ys @ e # zs \<Longrightarrow>
     \<exists>ds1 d ds2 y1 z1. ds = ds1 @ d # ds2 \<and> g d = y1 @ e # z1 \<and>
        ys = concat (map g ds1) @ y1 \<and> zs = z1 @ concat (map g ds2)"
proof (induction ds arbitrary: ys)
  case Nil
  then show ?case by simp
next
  case (Cons d ds)
  then have "g d @ concat (map g ds) = ys @ e # zs" by simp
  then consider (later) u where "ys = g d @ u" "concat (map g ds) = u @ e # zs"
    | (here) u where "g d = ys @ e # u" "zs = u @ concat (map g ds)"
    by (auto simp: append_eq_append_conv2 append_eq_Cons_conv)
  then show ?case
  proof cases
    case later
    from Cons.IH[OF later(2)] obtain ds1 d' ds2 y1 z1 where
      "ds = ds1 @ d' # ds2" "g d' = y1 @ e # z1" "u = concat (map g ds1) @ y1"
      "zs = z1 @ concat (map g ds2)"
      by blast
    with later show ?thesis
      by (intro exI[of _ "d # ds1"] exI[of _ d'] exI[of _ ds2] exI[of _ y1] exI[of _ z1]) simp
  next
    case here
    then show ?thesis
      by (intro exI[of _ "[]"] exI[of _ d] exI[of _ ds] exI[of _ ys] exI[of _ u]) simp
  qed
qed

lemma os_walk_prefix:
  "(p, dn, fn) \<in> set (os_walk prune dp es) \<Longrightarrow> \<exists>q. p = dp @ q"
proof (induction prune dp es arbitrary: p dn fn rule: os_walk.induct)
  case (1 prune dp es)
  from 1(2) consider "p = dp"
    | d sub where "d \<in> set (prune (dirs_of es))" "map_of es d = Some (Directory sub)"
          "(p, dn, fn) \<in> set (os_walk prune (dp @ [d]) sub)"
    using os_walk_mem_unfold[of "(p, dn, fn)" prune dp es] by blast
  then show ?case
  proof cases
    case 1
    then show ?thesis by simp
  next
    case (2 d sub)
    then have "\<exists>q. p = (dp @ [d]) @ q" using 1(1) by blast
    then show ?thesis by auto
  qed
qed

text \<open>
  A directory below the root of the walk is yielded after its parent, and its name was
  in the list of sub-directories the parent's visit left.
\<close>

lemma os_walk_parent_first:
  "os_walk prune dp es = ys @ (dp @ q @ [d], dn, fn) # zs \<Longrightarrow>
     \<exists>dn' fn'. (dp @ q, dn', fn') \<in> set ys \<and> d \<in> set dn'"
proof (induction prune dp es arbitrary: ys zs q rule: os_walk.induct)
  case (1 prune dp es)
  let ?dirs = "prune (dirs_of es)"
  let ?g = "\<lambda>d. case map_of es d of Some (Directory sub) \<Rightarrow> os_walk prune (dp @ [d]) sub | _ \<Rightarrow> []"
  let ?e = "(dp @ q @ [d], dn, fn)"
  have unf: "os_walk prune dp es = (dp, ?dirs, nondirs_of es) # concat (map ?g ?dirs)"
    by (subst os_walk.simps) (simp add: Let_def)
  with 1(2) have eq: "(dp, ?dirs, nondirs_of es) # concat (map ?g ?dirs) = ys @ ?e # zs" by simp
  have "ys \<noteq> []"
  proof
    assume "ys = []"
    with eq have "dp = dp @ q @ [d]" by simp
    then show False by simp
  qed
  then obtain ys' where ys: "ys = (dp, ?dirs, nondirs_of es) # ys'" and
      rest: "concat (map ?g ?dirs) = ys' @ ?e # zs"
    using eq by (cases ys) auto
  from concat_map_eq_snoc_Cons[OF rest] obtain ds1 d1 ds2 y1 z1 where
    dec: "?dirs = ds1 @ d1 # ds2" "?g d1 = y1 @ ?e # z1" "ys' = concat (map ?g ds1) @ y1"
    by blast
  from dec(1) have d1: "d1 \<in> set ?dirs" by simp
  from dec(2) obtain sub where sub: "map_of es d1 = Some (Directory sub)"
      "os_walk prune (dp @ [d1]) sub = y1 @ ?e # z1"
    by (auto split: option.splits node.splits)
  then have "?e \<in> set (os_walk prune (dp @ [d1]) sub)" by simp
  from os_walk_prefix[OF this] obtain q' where q': "dp @ q @ [d] = (dp @ [d1]) @ q'" by blast
  show ?case
  proof (cases q' rule: rev_cases)
    case Nil
    with q' have "q = []" "d = d1" by auto
    with d1 ys show ?thesis by auto
  next
    case (snoc q'' d')
    with q' have qq: "q = d1 # q''" "d' = d" by auto
    with sub(2) have "os_walk prune (dp @ [d1]) sub = y1 @ ((dp @ [d1]) @ q'' @ [d], dn, fn) # z1"
      by simp
    with d1 sub(1) obtain dn' fn' where
      "((dp @ [d1]) @ q'', dn', fn') \<in> set y1" "d \<in> set dn'"
      using 1(1) by blast
    with qq ys dec(3) show ?thesis by auto
  qed
qed

lemma join_sep_snoc: "ds \<noteq> [] \<Longrightarrow> join_sep (ds @ [f]) = join_sep ds @ ''/'' @ f"
  by (induction ds rule: join_sep.induct) simp_all

lemma rel_path_slash:
  "rel_path rel_dir f = (if rel_dir = [] then f else join_sep rel_dir @ ''/'' @ f)"
  by (simp add: rel_path_def as_posix_def join_sep_snoc)

lemma set_traversal:
  "set (traversal fs root ex) =
     (case scandir fs root of
        None \<Rightarrow> {}
      | Some es \<Rightarrow>
          {(ds, filter (\<lambda>d. d \<notin> ex) (dirs_of sub), nondirs_of sub) | ds sub.
             dir_at ex es ds = Some sub})"
proof (cases "scandir fs root")
  case None
  then show ?thesis by (simp add: traversal_def walk_root_def)
next
  case (Some es)
  have "set (os_walk (filter (\<lambda>d. d \<notin> ex)) [] es) =
      {(ds, filter (\<lambda>d. d \<notin> ex) (dirs_of sub), nondirs_of sub) | ds sub.
             dir_at ex es ds = Some sub}"
    using os_walk_iff[of _ _ _ ex "[]" es] by auto
  with Some show ?thesis by (simp add: traversal_def walk_root_def)
qed

lemma root_invalid_dir: "scandir fs p = Some es \<Longrightarrow> root_invalid fs env p = Inr False"
proof -
  assume "scandir fs p = Some es"
  then obtain n where n: "fs p = Some n" "listdir n = Some es"
    by (auto simp: scandir_def split: option.splits)
  then have "is_dir n" by (cases n) simp_all
  with n show ?thesis
    by (simp add: root_invalid_def path_exists_def path_is_dir_def stat_def)
qed

lemma root_invalid_iff:
  "(root_invalid fs env p = Inr True) =
     (case fs p of
        Some n \<Rightarrow> \<not> is_dir n
      | None \<Rightarrow> stat_failure env p = ValueError \<or> ignore_error (stat_failure env p))"
proof (cases "fs p")
  case None
  then show ?thesis
    by (cases "stat_failure env p")
       (simp_all add: root_invalid_def path_exists_def stat_def ignore_error_def)
next
  case (Some n)
  then show ?thesis
    by (simp add: root_invalid_def path_exists_def path_is_dir_def stat_def)
qed

lemma fst_finish_subset: "set (fst (finish env out status)) \<subseteq> set out"
  by (auto simp: finish_def uncaught_def dest: set_takeWhileD)

lemma snd_finish:
  "snd (finish env out status) = (if list_all (stdout_accepts env) out then status else 1)"
  by (simp add: finish_def uncaught_def)

lemma main_with_invalid:
  "root_invalid fs env (Path (args_root args)) = Inr True \<Longrightarrow>
     main_with D fs env args = finish env [error_line (Path (args_root args))] 2"
  by (simp add: main_with_def Let_def print_def)

lemma main_with_valid:
  "scandir fs (Path (args_root args)) = Some es \<Longrightarrow>
     main_with D fs env args =
       finish env
         ((if args_only_example args then print_only_example else print_all_files)
             fs (Path (args_root args)) (D \<union> set (args_ignore args)) [])
         0"
  by (simp add: main_with_def Let_def root_invalid_dir)

lemma snd_main_with_2:
  "(snd (main_with D fs env args) = 2) =
     (root_invalid fs env (Path (args_root args)) = Inr True \<and>
      stdout_accepts env (error_line (Path (args_root args))))"
proof (cases "root_invalid fs env (Path (args_root args))")
  case (Inl e)
  then show ?thesis by (simp add: main_with_def Let_def uncaught_def)
next
  case (Inr invalid)
  then show ?thesis
    by (cases invalid) (simp_all add: main_with_def Let_def snd_finish print_def)
qed

lemma fst_main_with_subset:
  "scandir fs (Path (args_root args)) = Some es \<Longrightarrow>
     set (fst (main_with D fs env args)) \<subseteq> listed_files (D \<union> set (args_ignore args)) es"
proof -
  assume root: "scandir fs (Path (args_root args)) = Some es"
  let ?out = "(if args_only_example args then print_only_example else print_all_files)
             fs (Path (args_root args)) (D \<union> set (args_ignore args)) []"
  have "set ?out \<subseteq> listed_files (D \<union> set (args_ignore args)) es"
    using root
    by (auto simp: print_only_example_def print_all_files_def fold_print_filter
        fold_print_all set_gather_files)
  with fst_finish_subset[of env ?out 0] show ?thesis
    unfolding main_with_valid[OF root] by blast
qed

lemma error_line_line_feed:
  "(CHR 0x0A \<in> set (error_line root)) = (CHR 0x0A \<in> set root)"
  by (auto simp: error_line_def)

lemma is_dir_reorder [simp]: "is_dir (reorder scan n) = is_dir n"
  by (cases n) simp_all

lemma collect_Cons: "collect ((p, dn, fn) # ts) = map (rel_path p) fn @ collect ts"
  by (simp add: collect_def)

lemma collect_concat: "collect (concat tss) = concat (map collect tss)"
  by (induction tss) (simp_all add: collect_def)

lemma mset_concat_map_cong:
  assumes "mset xs = mset ys" "\<And>x. x \<in> set xs \<Longrightarrow> mset (f x) = mset (g x)"
  shows "mset (concat (map f xs)) = mset (concat (map g ys))"
proof -
  have "mset (concat (map f xs)) = (\<Sum>x\<in>#mset xs. mset (f x))"
    by (induction xs) simp_all
  also have "\<dots> = (\<Sum>x\<in>#mset xs. mset (g x))"
    using assms(2) by (intro arg_cong[where f=sum_mset] image_mset_cong) simp
  also have "\<dots> = (\<Sum>x\<in>#mset ys. mset (g x))"
    using assms(1) by simp
  also have "\<dots> = mset (concat (map g ys))"
    by (induction ys) simp_all
  finally show ?thesis .
qed

lemma scanned_names:
  assumes "mset es' = mset (map (\<lambda>e. (fst e, reorder scan (snd e))) es)"
  shows "mset (dirs_of es') = mset (dirs_of es)" "mset (nondirs_of es') = mset (nondirs_of es)"
proof -
  let ?r = "\<lambda>e. (fst e, reorder scan (snd e))"
  have "mset (dirs_of es') = image_mset fst (filter_mset (\<lambda>e. is_dir (snd e)) (mset es'))"
    by (simp add: dirs_of_def)
  also have "\<dots> = image_mset fst (filter_mset (\<lambda>e. is_dir (snd e)) (image_mset ?r (mset es)))"
    using assms by simp
  also have "\<dots> = mset (dirs_of es)"
    by (simp add: dirs_of_def filter_mset_image_mset image_mset.compositionality comp_def)
  finally show "mset (dirs_of es') = mset (dirs_of es)" .
  have "mset (nondirs_of es') = image_mset fst (filter_mset (\<lambda>e. \<not> is_dir (snd e)) (mset es'))"
    by (simp add: nondirs_of_def)
  also have "\<dots> = image_mset fst (filter_mset (\<lambda>e. \<not> is_dir (snd e)) (image_mset ?r (mset es)))"
    using assms by simp
  also have "\<dots> = mset (nondirs_of es)"
    by (simp add: nondirs_of_def filter_mset_image_mset image_mset.compositionality comp_def)
  finally show "mset (nondirs_of es') = mset (nondirs_of es)" .
qed

lemma scanned_map_of:
  assumes "mset es' = mset (map (\<lambda>e. (fst e, reorder scan (snd e))) es)" "distinct (map fst es)"
  shows "map_of es' d = map_option (reorder scan) (map_of es d)"
proof -
  let ?r = "\<lambda>e. (fst e, reorder scan (snd e))"
  have fst: "map fst (map ?r es) = map fst es" by (simp add: comp_def)
  have "mset (map fst es') = mset (map fst (map ?r es))"
    using assms(1) by (metis mset_map)
  then have d': "distinct (map fst es')"
    using assms(2) fst by (metis mset_eq_imp_distinct_iff)
  have s: "set es' = set (map ?r es)" using assms(1) by (rule mset_eq_setD)
  have d: "distinct (map fst (map ?r es))" using assms(2) fst by metis
  from d' d s have "map_of es' = map_of (map ?r es)"
    using map_of_inject_set[of es' "map ?r es"] by blast
  moreover have "map_of (map ?r es) d = map_option (reorder scan) (map_of es d)"
    by (induction es) auto
  ultimately show ?thesis by simp
qed

lemma mset_collect_reorder:
  assumes "\<forall>es. mset (scan es) = mset es"
  shows "distinct_names (Directory es) \<Longrightarrow>
     mset (collect (os_walk (filter P) dp (scan (map (\<lambda>e. (fst e, reorder scan (snd e))) es)))) =
     mset (collect (os_walk (filter P) dp es))"
proof (induction "filter P" dp es rule: os_walk.induct)
  case (1 dp es)
  let ?prune = "filter P"
  let ?r = "\<lambda>e. (fst e, reorder scan (snd e))"
  let ?es' = "scan (map ?r es)"
  let ?g = "\<lambda>d. case map_of es d of Some (Directory sub) \<Rightarrow> os_walk ?prune (dp @ [d]) sub | _ \<Rightarrow> []"
  let ?g' = "\<lambda>d. case map_of ?es' d of Some (Directory sub) \<Rightarrow> os_walk ?prune (dp @ [d]) sub | _ \<Rightarrow> []"
  have perm: "mset ?es' = mset (map ?r es)" using assms by simp
  from 1(2) have dist: "distinct (map fst es)" and below: "\<forall>e \<in> set es. distinct_names (snd e)"
    by simp_all
  note names = scanned_names[OF perm]
  have look: "\<And>d. map_of ?es' d = map_option (reorder scan) (map_of es d)"
    using scanned_map_of[OF perm dist] .
  have unf: "\<And>es. os_walk ?prune dp es =
      (dp, ?prune (dirs_of es), nondirs_of es) #
      concat (map (\<lambda>d. case map_of es d of Some (Directory sub) \<Rightarrow> os_walk ?prune (dp @ [d]) sub | _ \<Rightarrow> [])
                (?prune (dirs_of es)))"
    by (subst os_walk.simps) (simp add: Let_def)
  have sub: "mset (collect (?g' d)) = mset (collect (?g d))" if d: "d \<in> set (?prune (dirs_of es))" for d
  proof (cases "map_of es d")
    case None
    then show ?thesis by (simp add: look)
  next
    case (Some c)
    show ?thesis
    proof (cases c)
      case (Directory sub)
      with Some have "(d, Directory sub) \<in> set es" by (auto dest: map_of_SomeD)
      with below have "distinct_names (Directory sub)" by fastforce
      with d Some Directory have "mset (collect (os_walk ?prune (dp @ [d]) (scan (map ?r sub)))) =
          mset (collect (os_walk ?prune (dp @ [d]) sub))"
        using 1(1) by blast
      with Some Directory show ?thesis by (simp add: look)
    qed (use Some in \<open>simp_all add: look\<close>)
  qed
  have dirs: "mset (?prune (dirs_of ?es')) = mset (?prune (dirs_of es))"
    using names(1) by simp
  have "mset (collect (os_walk ?prune dp ?es')) =
      mset (map (rel_path dp) (nondirs_of ?es')) +
      mset (concat (map (\<lambda>d. collect (?g' d)) (?prune (dirs_of ?es'))))"
    by (subst unf) (simp add: collect_Cons collect_concat comp_def)
  also have "mset (map (rel_path dp) (nondirs_of ?es')) = mset (map (rel_path dp) (nondirs_of es))"
    using names(2) by (metis mset_map)
  also have "mset (concat (map (\<lambda>d. collect (?g' d)) (?prune (dirs_of ?es')))) =
      mset (concat (map (\<lambda>d. collect (?g d)) (?prune (dirs_of es))))"
    using dirs sub by (intro mset_concat_map_cong[symmetric]) simp_all
  also have "mset (map (rel_path dp) (nondirs_of es)) +
      mset (concat (map (\<lambda>d. collect (?g d)) (?prune (dirs_of es)))) =
      mset (collect (os_walk ?prune dp es))"
    by (subst unf) (simp add: collect_Cons collect_concat comp_def)
  finally show ?case .
qed

lemma collect_Nil: "collect [] = []"
  by (simp add: collect_def)

lemma collect_os_walk_elem:
  assumes ok: "names_ok (Directory es)"
    and x: "x \<in> set (collect (os_walk (filter (\<lambda>d. d \<notin> ex)) dp es))"
  shows "\<exists>q f. x = join_sep (dp @ q @ [f]) \<and> (\<forall>y \<in> set (q @ [f]). CHR ''/'' \<notin> set y)"
proof -
  from x obtain p dn fn f where w: "x = rel_path p f"
      "(p, dn, fn) \<in> set (os_walk (filter (\<lambda>d. d \<notin> ex)) dp es)" "f \<in> set fn"
    unfolding set_collect by blast
  from w(2) obtain ds sub where s: "p = dp @ ds" "dir_at ex es ds = Some sub" "fn = nondirs_of sub"
    unfolding os_walk_iff by blast
  from names_ok_resolve[OF ok dir_at_resolve[OF s(2)]]
  have ds: "\<forall>y \<in> set ds. CHR ''/'' \<notin> set y" and sub: "names_ok (Directory sub)" by auto
  from w(3) s(3) nondirs_of_in[of f sub] sub have "CHR ''/'' \<notin> set f" by auto
  with ds w(1) s(1) show ?thesis
    by (intro exI[of _ ds] exI[of _ f]) (simp add: rel_path_join)
qed

lemma distinct_concat_map:
  "distinct ds \<Longrightarrow> (\<And>d. d \<in> set ds \<Longrightarrow> distinct (h d)) \<Longrightarrow>
     (\<And>d d'. d \<in> set ds \<Longrightarrow> d' \<in> set ds \<Longrightarrow> d \<noteq> d' \<Longrightarrow> set (h d) \<inter> set (h d') = {}) \<Longrightarrow>
     distinct (concat (map h ds))"
proof (induction ds)
  case Nil
  then show ?case by simp
next
  case (Cons d ds)
  have "set (h d) \<inter> set (h d') = {}" if "d' \<in> set ds" for d'
    using Cons.prems(1) Cons.prems(3)[of d d'] that by auto
  moreover have "distinct (concat (map h ds))"
    using Cons by (intro Cons.IH) auto
  ultimately show ?case using Cons.prems(2)[of d] by auto
qed

lemma rel_path_inj: "rel_path dp f = rel_path dp f' \<Longrightarrow> f = f'"
  by (simp add: rel_path_slash split: if_splits)

lemma distinct_dirs_of: "distinct (map fst es) \<Longrightarrow> distinct (dirs_of es)"
  unfolding dirs_of_def by (rule distinct_map_filter)

lemma distinct_nondirs_of: "distinct (map fst es) \<Longrightarrow> distinct (nondirs_of es)"
  unfolding nondirs_of_def by (rule distinct_map_filter)

text \<open>
  With slash-free names, unique within each directory, no path is collected twice: the
  paths collected in a directory differ in their last part, those collected below two
  sub-directories differ in the name of the sub-directory, and those collected below a
  sub-directory are longer than those collected in the directory itself.
\<close>

lemma distinct_collect_os_walk:
  "names_ok (Directory es) \<Longrightarrow> distinct_names (Directory es) \<Longrightarrow>
   \<forall>y \<in> set dp. CHR ''/'' \<notin> set y \<Longrightarrow>
     distinct (collect (os_walk (filter (\<lambda>d. d \<notin> ex)) dp es))"
proof (induction "filter (\<lambda>d. d \<notin> ex)" dp es rule: os_walk.induct)
  case (1 dp es)
  let ?prune = "filter (\<lambda>d. d \<notin> ex)"
  let ?g = "\<lambda>d. case map_of es d of Some (Directory sub) \<Rightarrow> os_walk ?prune (dp @ [d]) sub | _ \<Rightarrow> []"
  let ?h = "\<lambda>d. collect (?g d)"
  let ?dirs = "?prune (dirs_of es)"
  from 1(2) have ok: "\<forall>e \<in> set es. CHR ''/'' \<notin> set (fst e) \<and> names_ok (snd e)" by simp
  from 1(3) have dist: "distinct (map fst es)" and below: "\<forall>e \<in> set es. distinct_names (snd e)"
    by simp_all
  have unf: "collect (os_walk ?prune dp es) =
      map (rel_path dp) (nondirs_of es) @ concat (map ?h ?dirs)"
    by (subst os_walk.simps) (simp add: Let_def collect_Cons collect_concat comp_def)
  have elem: "\<exists>q f. x = join_sep (dp @ d # q @ [f]) \<and> (\<forall>y \<in> set (d # q @ [f]). CHR ''/'' \<notin> set y)"
    if "x \<in> set (?h d)" for x d
  proof -
    from that obtain sub where sub: "map_of es d = Some (Directory sub)"
        "x \<in> set (collect (os_walk ?prune (dp @ [d]) sub))"
      by (auto simp: collect_Nil split: option.splits node.splits)
    from sub(1) have mem: "(d, Directory sub) \<in> set es" by (rule map_of_SomeD)
    with ok have d: "CHR ''/'' \<notin> set d" and "names_ok (Directory sub)" by fastforce+
    from collect_os_walk_elem[OF this(2) sub(2)] d show ?thesis by auto
  qed
  have A: "distinct (map (rel_path dp) (nondirs_of es))"
    using distinct_nondirs_of[OF dist] by (auto simp: distinct_map intro!: inj_onI dest: rel_path_inj)
  have B: "distinct (concat (map ?h ?dirs))"
  proof (rule distinct_concat_map)
    show "distinct ?dirs" using distinct_dirs_of[OF dist] by simp
  next
    fix d assume d: "d \<in> set ?dirs"
    show "distinct (?h d)"
    proof (cases "map_of es d")
      case None
      then show ?thesis by (simp add: collect_Nil)
    next
      case (Some c)
      show ?thesis
      proof (cases c)
        case (Directory sub)
        with Some have mem: "(d, Directory sub) \<in> set es" by (auto dest: map_of_SomeD)
        with ok below have "names_ok (Directory sub)" "distinct_names (Directory sub)"
          "CHR ''/'' \<notin> set d" by fastforce+
        with 1(4) d Some Directory have "distinct (collect (os_walk ?prune (dp @ [d]) sub))"
          using 1(1) by simp
        with Some Directory show ?thesis by simp
      qed (use Some in \<open>simp_all add: collect_Nil\<close>)
    qed
  next
    fix d d' assume "d \<in> set ?dirs" "d' \<in> set ?dirs" and dd: "d \<noteq> d'"
    show "set (?h d) \<inter> set (?h d') = {}"
    proof (rule ccontr)
      assume "set (?h d) \<inter> set (?h d') \<noteq> {}"
      then obtain x where "x \<in> set (?h d)" "x \<in> set (?h d')" by blast
      from elem[OF this(1)] elem[OF this(2)] obtain q f q' f' where
        e: "x = join_sep (dp @ d # q @ [f])" "\<forall>y \<in> set (d # q @ [f]). CHR ''/'' \<notin> set y"
           "x = join_sep (dp @ d' # q' @ [f'])" "\<forall>y \<in> set (d' # q' @ [f']). CHR ''/'' \<notin> set y"
        by blast
      have "dp @ d # q @ [f] = dp @ d' # q' @ [f']"
        using e 1(4) by (intro join_sep_inj) auto
      with dd show False by simp
    qed
  qed
  have C: "set (map (rel_path dp) (nondirs_of es)) \<inter> set (concat (map ?h ?dirs)) = {}"
  proof (rule ccontr)
    assume "\<not> ?thesis"
    then obtain x f d where x: "x = rel_path dp f" "f \<in> set (nondirs_of es)" "x \<in> set (?h d)"
      by auto
    from nondirs_of_in[OF x(2)] ok have f: "CHR ''/'' \<notin> set f" by fastforce
    from elem[OF x(3)] obtain q f' where
      e: "x = join_sep (dp @ d # q @ [f'])" "\<forall>y \<in> set (d # q @ [f']). CHR ''/'' \<notin> set y"
      by blast
    have "dp @ [f] = dp @ d # q @ [f']"
      using e x(1) f 1(4) by (intro join_sep_inj) (auto simp: rel_path_join)
    then show False by simp
  qed
  from A B C show ?case unfolding unf by simp
qed

lemma distinct_gather_files:
  assumes "scandir fs root = Some es" "names_ok (Directory es)" "distinct_names (Directory es)"
  shows "distinct (gather_files fs root ex)"
  using assms distinct_collect_os_walk[of es "[]" ex]
  by (simp add: gather_files_def traversal_def walk_root_def)

section \<open>The claims\<close>

subsection \<open>What \<^verbatim>\<open>gather_files\<close> returns\<close>

text \<open>
  C1, as amended. \<^verbatim>\<open>gather_files\<close> returns exactly the relative paths of the entries
  that are not directories (regular files, and also FIFOs, sockets, devices and dangling
  links) in the root and in the real directories reachable from it outside the excluded
  subtrees, and the list it returns is sorted. A root that cannot be scanned gives the
  empty list. On a tree whose names hold no slash and are unique within each directory,
  as on any file system, no path occurs twice in the list.
\<close>

theorem gather_files_sorted_listing:
  "set (gather_files fs root exclude_dirs) =
     (case scandir fs root of None \<Rightarrow> {} | Some es \<Rightarrow> listed_files exclude_dirs es)
   \<and> sorted (gather_files fs root exclude_dirs)
   \<and> (\<forall>es. scandir fs root = Some es \<and> names_ok (Directory es) \<and> distinct_names (Directory es)
         \<longrightarrow> distinct (gather_files fs root exclude_dirs))"
  by (simp add: set_gather_files sorted_gather_files distinct_gather_files)

theorem gather_files_sorted_listing_witness:
  "scandir fs_demo ''/proj'' = Some demo_entries
   \<and> names_ok (Directory demo_entries)
   \<and> distinct_names (Directory demo_entries)
   \<and> gather_files fs_demo ''/proj'' DEFAULT_EXCLUDE_DIRS = [''package.json'', ''src/App.tsx'']
   \<and> listed_files DEFAULT_EXCLUDE_DIRS demo_entries = {''package.json'', ''src/App.tsx''}"
proof -
  have 1: "scandir fs_demo ''/proj'' = Some demo_entries"
    by (simp add: scandir_def fs_demo_def)
  have 2: "names_ok (Directory demo_entries)"
    by (simp add: demo_entries_def)
  have 3: "distinct_names (Directory demo_entries)"
    by (simp add: demo_entries_def)
  have 4: "gather_files fs_demo ''/proj'' DEFAULT_EXCLUDE_DIRS = [''package.json'', ''src/App.tsx'']"
    by (simp add: gather_files_def traversal_def walk_root_def scandir_def fs_demo_def
        demo_entries_def os_walk.simps dirs_of_def nondirs_of_def collect_def rel_path_def
        as_posix_def DEFAULT_EXCLUDE_DIRS_def)
  from gather_files_sorted_listing[of fs_demo "''/proj''" DEFAULT_EXCLUDE_DIRS] 1 2 3 4
  show ?thesis by auto
qed

text \<open>
  C1 as stated fails: a FIFO in the root is listed, although it is not a regular file,
  so the list is not the list of the regular files.
\<close>

theorem gather_files_regular_counterexample:
  "scandir fs_fifo ''/srv'' = Some [(''fifo'', Special)]
   \<and> gather_files fs_fifo ''/srv'' {} = [''fifo'']
   \<and> regular_files {} [(''fifo'', Special)] = {}
   \<and> set (gather_files fs_fifo ''/srv'' {}) \<noteq> regular_files {} [(''fifo'', Special)]"
proof (intro conjI)
  show "scandir fs_fifo ''/srv'' = Some [(''fifo'', Special)]"
    by (simp add: scandir_def fs_fifo_def)
  show "gather_files fs_fifo ''/srv'' {} = [''fifo'']"
    by (simp add: gather_files_def traversal_def walk_root_def scandir_def fs_fifo_def
        os_walk.simps dirs_of_def nondirs_of_def collect_def rel_path_def)
  show none: "regular_files {} [(''fifo'', Special)] = {}"
    by (auto simp: regular_files_def dest: dir_at_fifo)
  have "gather_files fs_fifo ''/srv'' {} = [''fifo'']"
    by (simp add: gather_files_def traversal_def walk_root_def scandir_def fs_fifo_def
        os_walk.simps dirs_of_def nondirs_of_def collect_def rel_path_def)
  with none show "set (gather_files fs_fifo ''/srv'' {}) \<noteq> regular_files {} [(''fifo'', Special)]"
    by simp
qed

subsection \<open>Excluded subtrees\<close>

text \<open>
  C2. When the name \<open>D\<close> is in the exclude set, no file located under a sub-directory
  named \<open>D\<close>, at whatever depth below the root and however deep below \<open>D\<close>, has its
  path in the list \<^verbatim>\<open>gather_files\<close> returns.
\<close>

theorem excluded_subtree_absent:
  assumes root: "scandir fs root = Some es"
    and ok: "names_ok (Directory es)"
    and D: "D \<in> exclude_dirs"
    and under: "resolve (Directory es) (ds @ D # ds' @ [f]) = Some n"
  shows "as_posix (ds @ D # ds' @ [f]) \<notin> set (gather_files fs root exclude_dirs)"
  using listed_files_excluded[OF ok D under] root
  by (simp add: set_gather_files as_posix_def)

theorem excluded_subtree_absent_witness:
  "scandir fs_demo ''/proj'' = Some demo_entries
   \<and> names_ok (Directory demo_entries)
   \<and> ''node_modules'' \<in> DEFAULT_EXCLUDE_DIRS
   \<and> resolve (Directory demo_entries) [''node_modules'', ''pkg'', ''index.js''] = Some Regular
   \<and> ''node_modules/pkg/index.js'' \<notin> set (gather_files fs_demo ''/proj'' DEFAULT_EXCLUDE_DIRS)"
proof -
  have 1: "scandir fs_demo ''/proj'' = Some demo_entries"
    by (simp add: scandir_def fs_demo_def)
  have 2: "names_ok (Directory demo_entries)"
    by (simp add: demo_entries_def)
  have 3: "''node_modules'' \<in> DEFAULT_EXCLUDE_DIRS"
    by (simp add: DEFAULT_EXCLUDE_DIRS_def)
  have 4: "resolve (Directory demo_entries) ([] @ ''node_modules'' # [''pkg''] @ [''index.js'']) = Some Regular"
    by (simp add: demo_entries_def)
  from excluded_subtree_absent[OF 1 2 3 4] 1 2 3 4 show ?thesis
    by (simp add: as_posix_def)
qed

subsection \<open>The example list\<close>

text \<open>
  C3. \<^verbatim>\<open>print_only_example\<close> prints exactly the entries of \<^verbatim>\<open>EXAMPLE_FILES\<close> that
  occur in the result of \<^verbatim>\<open>gather_files\<close>, in the order of \<^verbatim>\<open>EXAMPLE_FILES\<close>; what it
  prints is a subsequence of that list, and the entries that were not found leave no
  trace in the output.
\<close>

theorem print_only_example_allowlist:
  "print_only_example fs root exclude_dirs [] =
     filter (\<lambda>p. p \<in> set (gather_files fs root exclude_dirs)) EXAMPLE_FILES
   \<and> subseq (print_only_example fs root exclude_dirs []) EXAMPLE_FILES
   \<and> set (print_only_example fs root exclude_dirs []) =
       set EXAMPLE_FILES \<inter> set (gather_files fs root exclude_dirs)"
proof -
  let ?found = "\<lambda>p. p \<in> set (gather_files fs root exclude_dirs)"
  have eq: "print_only_example fs root exclude_dirs [] = filter ?found EXAMPLE_FILES"
    by (simp add: print_only_example_def fold_print_filter)
  have "subseq (filter ?found EXAMPLE_FILES) EXAMPLE_FILES"
    by (rule subseq_filter_left)
  moreover have "set (filter ?found EXAMPLE_FILES) =
      set EXAMPLE_FILES \<inter> set (gather_files fs root exclude_dirs)"
    by auto
  ultimately show ?thesis using eq by simp
qed

subsection \<open>An invalid root\<close>

text \<open>
  C4, as amended. When \<^verbatim>\<open>exists()\<close> or \<^verbatim>\<open>is_dir()\<close> answers \<^verbatim>\<open>False\<close> for the root
  (\<^verbatim>\<open>stat\<close> reports the path missing, with \<^verbatim>\<open>ENOENT\<close>, \<^verbatim>\<open>ENOTDIR\<close>, \<^verbatim>\<open>EBADF\<close> or
  \<^verbatim>\<open>ELOOP\<close>, or finds something that is not a directory) and standard output takes the
  text, \<^verbatim>\<open>main\<close> prints, with one call of \<^verbatim>\<open>print\<close>, the text
  \<^verbatim>\<open>[error] root path '<root>' does not exist or is not a directory.\<close>, in which
  \<^verbatim>\<open><root>\<close> is the path as \<^verbatim>\<open>pathlib\<close> prints it (\<^verbatim>\<open>str(Path(root))\<close>, the argument
  with repeated and trailing slashes and \<^verbatim>\<open>.\<close> parts removed); the text is a single
  line exactly when that path holds no line feed; nothing else is printed, and the
  exit status is 2. Once the arguments are parsed, a run ends with status 2 in this case
  only.
\<close>

theorem invalid_root_error:
  assumes invalid: "root_invalid fs env (Path (args_root args)) = Inr True"
    and accepted: "stdout_accepts env (error_line (Path (args_root args)))"
  shows "main fs env args = ([error_line (Path (args_root args))], 2)
    \<and> error_line (Path (args_root args)) =
         ''[error] root path '' @ [CHR 0x27] @ Path (args_root args) @ [CHR 0x27] @
         '' does not exist or is not a directory.''
    \<and> (CHR 0x0A \<in> set (error_line (Path (args_root args)))) =
         (CHR 0x0A \<in> set (Path (args_root args)))
    \<and> (snd (main fs env args') = 2) =
         (root_invalid fs env (Path (args_root args')) = Inr True \<and>
          stdout_accepts env (error_line (Path (args_root args'))))
    \<and> (root_invalid fs env (Path (args_root args')) = Inr True) =
         (case fs (Path (args_root args')) of
            Some n \<Rightarrow> \<not> is_dir n
          | None \<Rightarrow> stat_failure env (Path (args_root args')) = ValueError \<or>
                     ignore_error (stat_failure env (Path (args_root args'))))"
proof (intro conjI)
  show "main fs env args = ([error_line (Path (args_root args))], 2)"
    using accepted by (simp add: main_def main_with_invalid[OF invalid] finish_def)
  show "error_line (Path (args_root args)) =
         ''[error] root path '' @ [CHR 0x27] @ Path (args_root args) @ [CHR 0x27] @
         '' does not exist or is not a directory.''"
    by (simp add: error_line_def)
  show "(CHR 0x0A \<in> set (error_line (Path (args_root args)))) =
         (CHR 0x0A \<in> set (Path (args_root args)))"
    by (rule error_line_line_feed)
  show "(snd (main fs env args') = 2) =
         (root_invalid fs env (Path (args_root args')) = Inr True \<and>
          stdout_accepts env (error_line (Path (args_root args'))))"
    by (simp add: main_def snd_main_with_2)
  show "(root_invalid fs env (Path (args_root args')) = Inr True) =
         (case fs (Path (args_root args')) of
            Some n \<Rightarrow> \<not> is_dir n
          | None \<Rightarrow> stat_failure env (Path (args_root args')) = ValueError \<or>
                     ignore_error (stat_failure env (Path (args_root args'))))"
    by (rule root_invalid_iff)
qed

theorem invalid_root_error_witness:
  "root_invalid fs_empty env_plain (Path ''/nonexistent/path'') = Inr True
   \<and> stdout_accepts env_plain (error_line (Path ''/nonexistent/path''))
   \<and> main fs_empty env_plain
        \<lparr>args_root = ''/nonexistent/path'', args_only_example = False, args_ignore = []\<rparr> =
      ([''[error] root path '/nonexistent/path' does not exist or is not a directory.''], 2)"
proof -
  let ?args = "\<lparr>args_root = ''/nonexistent/path'', args_only_example = False, args_ignore = []\<rparr>"
  have p: "Path ''/nonexistent/path'' = ''/nonexistent/path''"
    by (simp add: Path_def splitroot_def)
  have 1: "root_invalid fs_empty env_plain (Path (args_root ?args)) = Inr True"
    by (simp add: root_invalid_def path_exists_def stat_def fs_empty_def env_plain_def
        ignore_error_def IGNORED_ERRNOS_def)
  have 2: "stdout_accepts env_plain (error_line (Path (args_root ?args)))"
    by (simp add: env_plain_def)
  from invalid_root_error[OF 1 2] 1 2 p show ?thesis
    by (simp add: error_line_def)
qed

text \<open>
  C4 as stated fails, in each of its parts. For the argument \<^verbatim>\<open>missing/\<close> the line
  printed holds \<^verbatim>\<open>missing\<close>, and the literal value of the argument occurs nowhere in
  it. A root whose \<^verbatim>\<open>stat\<close> fails with an error \<^verbatim>\<open>pathlib\<close> raises again (here
  permission denied on the way to it) ends the script with status 1 and no diagnostic.
  A missing root whose name holds a line feed gets a diagnostic of two lines. And a
  valid root holding a name standard output cannot encode ends the script with status
  1 after the names before it: the invalid root is not the only way a run fails.
\<close>

theorem invalid_root_counterexample:
  "main fs_empty env_plain
      \<lparr>args_root = ''missing/'', args_only_example = False, args_ignore = []\<rparr> =
      ([''[error] root path 'missing' does not exist or is not a directory.''], 2)
   \<and> \<not> sublist ''missing/'' ''[error] root path 'missing' does not exist or is not a directory.''
   \<and> fs_empty ''/locked/dir'' = None
   \<and> main fs_empty env_locked
        \<lparr>args_root = ''/locked/dir'', args_only_example = False, args_ignore = []\<rparr> = ([], 1)
   \<and> main fs_empty env_plain
        \<lparr>args_root = [CHR ''a'', CHR 0x0A, CHR ''b''], args_only_example = False,
         args_ignore = []\<rparr> =
        ([error_line [CHR ''a'', CHR 0x0A, CHR ''b'']], 2)
   \<and> CHR 0x0A \<in> set (error_line [CHR ''a'', CHR 0x0A, CHR ''b''])
   \<and> scandir fs_raw ''/data'' = Some [([CHR 0xFF], Regular), (''a.txt'', Regular)]
   \<and> main fs_raw env_strict
        \<lparr>args_root = ''/data'', args_only_example = False, args_ignore = []\<rparr> =
        ([''a.txt''], 1)"
proof (intro conjI)
  have p: "Path ''missing/'' = ''missing''"
    by (simp add: Path_def splitroot_def)
  show "main fs_empty env_plain
      \<lparr>args_root = ''missing/'', args_only_example = False, args_ignore = []\<rparr> =
      ([''[error] root path 'missing' does not exist or is not a directory.''], 2)"
    by (simp add: main_def main_with_def p root_invalid_def path_exists_def stat_def
        fs_empty_def env_plain_def ignore_error_def IGNORED_ERRNOS_def finish_def print_def
        error_line_def)
  show "\<not> sublist ''missing/'' ''[error] root path 'missing' does not exist or is not a directory.''"
    by code_simp
  show "fs_empty ''/locked/dir'' = None"
    by (simp add: fs_empty_def)
  have q: "Path ''/locked/dir'' = ''/locked/dir''"
    by (simp add: Path_def splitroot_def)
  show "main fs_empty env_locked
        \<lparr>args_root = ''/locked/dir'', args_only_example = False, args_ignore = []\<rparr> = ([], 1)"
    by (simp add: main_def main_with_def q root_invalid_def path_exists_def stat_def
        fs_empty_def env_locked_def ignore_error_def IGNORED_ERRNOS_def uncaught_def
        ENOENT_def ENOTDIR_def EBADF_def ELOOP_def EACCES_def)
  have r: "Path [CHR ''a'', CHR 0x0A, CHR ''b''] = [CHR ''a'', CHR 0x0A, CHR ''b'']"
    by (simp add: Path_def splitroot_def)
  show "main fs_empty env_plain
        \<lparr>args_root = [CHR ''a'', CHR 0x0A, CHR ''b''], args_only_example = False,
         args_ignore = []\<rparr> =
        ([error_line [CHR ''a'', CHR 0x0A, CHR ''b'']], 2)"
    by (simp add: main_def main_with_def r root_invalid_def path_exists_def stat_def
        fs_empty_def env_plain_def ignore_error_def IGNORED_ERRNOS_def finish_def print_def)
  show "CHR 0x0A \<in> set (error_line [CHR ''a'', CHR 0x0A, CHR ''b''])"
    by (simp add: error_line_line_feed)
  show "scandir fs_raw ''/data'' = Some [([CHR 0xFF], Regular), (''a.txt'', Regular)]"
    by (simp add: scandir_def fs_raw_def)
  have d: "Path ''/data'' = ''/data''"
    by (simp add: Path_def splitroot_def)
  have g: "gather_files fs_raw ''/data'' DEFAULT_EXCLUDE_DIRS = [''a.txt'', [CHR 0xFF]]"
    by (simp add: gather_files_def traversal_def walk_root_def scandir_def fs_raw_def
        os_walk.simps dirs_of_def nondirs_of_def collect_def rel_path_def)
  show "main fs_raw env_strict
        \<lparr>args_root = ''/data'', args_only_example = False, args_ignore = []\<rparr> =
        ([''a.txt''], 1)"
    by (simp add: main_def main_with_def d root_invalid_def path_exists_def path_is_dir_def
        stat_def fs_raw_def env_strict_def finish_def uncaught_def print_all_files_def
        fold_print_all g)
qed

subsection \<open>Pruning before descent\<close>

text \<open>
  C5. At every step of the traversal of \<^verbatim>\<open>gather_files\<close>, the directory visited has no
  excluded name on its path below the root, the list of sub-directories left for the
  descent holds no excluded name, and a directory other than the root was entered from
  a visit made earlier, whose filtered list held its name: the filter is applied before
  the descent, and no excluded directory is ever entered.
\<close>

theorem traversal_prunes_before_descent:
  assumes "traversal fs root exclude_dirs = ys @ (p, dirnames, filenames) # zs"
  shows "(\<forall>d \<in> set p. d \<notin> exclude_dirs)
    \<and> (\<forall>d \<in> set dirnames. d \<notin> exclude_dirs)
    \<and> (p = [] \<or>
        (\<exists>dirnames' filenames'.
            (butlast p, dirnames', filenames') \<in> set ys \<and> last p \<in> set dirnames'))"
proof -
  let ?prune = "filter (\<lambda>d. d \<notin> exclude_dirs)"
  from assms obtain es where es: "scandir fs root = Some es"
      "os_walk ?prune [] es = ys @ (p, dirnames, filenames) # zs"
    by (auto simp: traversal_def walk_root_def split: option.splits)
  then have "(p, dirnames, filenames) \<in> set (os_walk ?prune [] es)" by simp
  then obtain sub where sub: "dir_at exclude_dirs es p = Some sub" "dirnames = ?prune (dirs_of sub)"
    unfolding os_walk_iff by auto
  have a: "\<forall>d \<in> set p. d \<notin> exclude_dirs" using dir_at_not_excluded[OF sub(1)] by blast
  have b: "\<forall>d \<in> set dirnames. d \<notin> exclude_dirs" using sub(2) by simp
  have c: "p = [] \<or>
      (\<exists>dirnames' filenames'.
          (butlast p, dirnames', filenames') \<in> set ys \<and> last p \<in> set dirnames')"
  proof (cases p rule: rev_cases)
    case Nil
    then show ?thesis by simp
  next
    case (snoc q d)
    with es(2) have "os_walk ?prune [] es = ys @ ([] @ q @ [d], dirnames, filenames) # zs" by simp
    from os_walk_parent_first[OF this] snoc show ?thesis by simp
  qed
  from a b c show ?thesis by blast
qed

theorem traversal_prunes_before_descent_witness:
  "traversal fs_demo ''/proj'' DEFAULT_EXCLUDE_DIRS =
     [([], [''src'', ''vendor''], [''package.json''])] @ ([''src''], [], [''App.tsx'']) # []
   \<and> ''src'' \<notin> DEFAULT_EXCLUDE_DIRS
   \<and> ([], [''src'', ''vendor''], [''package.json''])
       \<in> set [([], [''src'', ''vendor''], [''package.json''])]
   \<and> ''src'' \<in> set [''src'', ''vendor'']"
proof -
  have t: "traversal fs_demo ''/proj'' DEFAULT_EXCLUDE_DIRS =
     [([], [''src'', ''vendor''], [''package.json''])] @ ([''src''], [], [''App.tsx'']) # []"
    by (simp add: traversal_def walk_root_def scandir_def fs_demo_def demo_entries_def
        os_walk.simps dirs_of_def nondirs_of_def DEFAULT_EXCLUDE_DIRS_def)
  from traversal_prunes_before_descent[OF t] t show ?thesis
    by simp
qed

subsection \<open>The form of the paths\<close>

text \<open>
  C6. The list \<^verbatim>\<open>gather_files\<close> returns is the sorted list of the paths emitted for the
  file names of the directories visited, and the path emitted for a file name is the
  bare name when the directory is the root, and otherwise the names descended from the
  root to the directory, joined by forward slashes, then a forward slash and the file
  name. The directories visited are those reached from the root by descending through
  real directories.
\<close>

theorem gather_files_relative_paths:
  "gather_files fs root exclude_dirs =
     sort (concat (map (\<lambda>(rel_dir, dirnames, filenames).
                          map (\<lambda>f. if rel_dir = [] then f else join_sep rel_dir @ ''/'' @ f)
                            filenames)
                       (traversal fs root exclude_dirs)))
   \<and> set (traversal fs root exclude_dirs) =
       (case scandir fs root of
          None \<Rightarrow> {}
        | Some es \<Rightarrow>
            {(ds, filter (\<lambda>d. d \<notin> exclude_dirs) (dirs_of sub), nondirs_of sub) | ds sub.
               dir_at exclude_dirs es ds = Some sub})"
proof -
  have eq: "rel_path = (\<lambda>rel_dir f. if rel_dir = [] then f else join_sep rel_dir @ ''/'' @ f)"
    by (intro ext) (rule rel_path_slash)
  have "gather_files fs root exclude_dirs =
     sort (concat (map (\<lambda>(rel_dir, dirnames, filenames).
                          map (\<lambda>f. if rel_dir = [] then f else join_sep rel_dir @ ''/'' @ f)
                            filenames)
                       (traversal fs root exclude_dirs)))"
    by (simp only: gather_files_def collect_def Let_def eq)
  then show ?thesis using set_traversal by simp
qed

subsection \<open>The \<^verbatim>\<open>--ignore\<close> option\<close>

text \<open>
  C7. With a valid root, \<^verbatim>\<open>main\<close> runs the selected printing function with the
  exclude set \<^verbatim>\<open>DEFAULT_EXCLUDE_DIRS\<close> united with the names given to \<^verbatim>\<open>--ignore\<close>, and
  when standard output takes every line the run is that list with status 0; the
  run is the one the script would make without \<^verbatim>\<open>--ignore\<close> were those names in the
  built-in set; no file under a directory named by \<^verbatim>\<open>--ignore\<close> is printed; and the
  built-in set is the eight names of the specification.
\<close>

theorem ignore_extends_defaults:
  assumes root: "scandir fs (Path (args_root args)) = Some es"
    and ok: "names_ok (Directory es)"
    and X: "X \<in> set (args_ignore args)"
    and under: "resolve (Directory es) (ds @ X # ds' @ [f]) = Some n"
  shows "main fs env args =
           finish env
             ((if args_only_example args then print_only_example else print_all_files)
                 fs (Path (args_root args)) (DEFAULT_EXCLUDE_DIRS \<union> set (args_ignore args)) [])
             0
    \<and> (list_all (stdout_accepts env)
          ((if args_only_example args then print_only_example else print_all_files)
              fs (Path (args_root args)) (DEFAULT_EXCLUDE_DIRS \<union> set (args_ignore args)) [])
        \<longrightarrow>
        main fs env args =
           ((if args_only_example args then print_only_example else print_all_files)
               fs (Path (args_root args)) (DEFAULT_EXCLUDE_DIRS \<union> set (args_ignore args)) [], 0))
    \<and> main fs env args =
          main_with (DEFAULT_EXCLUDE_DIRS \<union> set (args_ignore args)) fs env
            (args\<lparr>args_ignore := []\<rparr>)
    \<and> as_posix (ds @ X # ds' @ [f]) \<notin> set (fst (main fs env args))
    \<and> DEFAULT_EXCLUDE_DIRS =
          {''node_modules'', ''.git'', ''dist'', ''build'', ''.vite'', ''.cache'',
           ''.parcel-cache'', ''__pycache__''}"
proof -
  let ?ex = "DEFAULT_EXCLUDE_DIRS \<union> set (args_ignore args)"
  let ?out = "(if args_only_example args then print_only_example else print_all_files)
                 fs (Path (args_root args)) ?ex []"
  have root': "scandir fs (Path (args_root (args\<lparr>args_ignore := []\<rparr>))) = Some es"
    using root by simp
  have 1: "main fs env args = finish env ?out 0"
    by (simp add: main_def main_with_valid[OF root])
  have taken: "list_all (stdout_accepts env) ?out \<longrightarrow> main fs env args = (?out, 0)"
    unfolding 1 by (simp add: finish_def)
  have 2: "main fs env args = main_with ?ex fs env (args\<lparr>args_ignore := []\<rparr>)"
    unfolding 1 by (simp add: main_with_valid[OF root'])
  have "X \<in> ?ex" using X by simp
  from listed_files_excluded[OF ok this under]
  have "as_posix (ds @ X # ds' @ [f]) \<notin> listed_files ?ex es"
    by (simp add: as_posix_def)
  with fst_main_with_subset[OF root, of DEFAULT_EXCLUDE_DIRS env]
  have 3: "as_posix (ds @ X # ds' @ [f]) \<notin> set (fst (main fs env args))"
    by (auto simp: main_def)
  from 1 taken 2 3 show ?thesis by (simp add: DEFAULT_EXCLUDE_DIRS_def)
qed

theorem ignore_extends_defaults_witness:
  "scandir fs_demo (Path ''/proj'') = Some demo_entries
   \<and> names_ok (Directory demo_entries)
   \<and> ''src'' \<in> set [''src'']
   \<and> resolve (Directory demo_entries) [''src'', ''App.tsx''] = Some Regular
   \<and> main fs_demo env_plain
        \<lparr>args_root = ''/proj'', args_only_example = False, args_ignore = [''src'']\<rparr> =
        ([''package.json''], 0)
   \<and> main fs_demo env_plain
        \<lparr>args_root = ''/proj'', args_only_example = False, args_ignore = []\<rparr> =
        ([''package.json'', ''src/App.tsx''], 0)"
proof -
  let ?args = "\<lparr>args_root = ''/proj'', args_only_example = False, args_ignore = [''src'']\<rparr>"
  have p: "Path ''/proj'' = ''/proj''"
    by (simp add: Path_def splitroot_def)
  have 1: "scandir fs_demo (Path (args_root ?args)) = Some demo_entries"
    by (simp add: p scandir_def fs_demo_def)
  have 2: "names_ok (Directory demo_entries)"
    by (simp add: demo_entries_def)
  have 3: "''src'' \<in> set (args_ignore ?args)"
    by simp
  have 4: "resolve (Directory demo_entries) ([] @ ''src'' # [] @ [''App.tsx'']) = Some Regular"
    by (simp add: demo_entries_def)
  have g: "gather_files fs_demo ''/proj'' DEFAULT_EXCLUDE_DIRS = [''package.json'', ''src/App.tsx'']"
    by (simp add: gather_files_def traversal_def walk_root_def
        scandir_def fs_demo_def demo_entries_def os_walk.simps dirs_of_def nondirs_of_def collect_def
        rel_path_def as_posix_def DEFAULT_EXCLUDE_DIRS_def)
  have 5: "main fs_demo env_plain
        \<lparr>args_root = ''/proj'', args_only_example = False, args_ignore = []\<rparr> =
        ([''package.json'', ''src/App.tsx''], 0)"
    by (simp add: main_def main_with_def p root_invalid_def path_exists_def path_is_dir_def
        stat_def fs_demo_def Let_def finish_def env_plain_def print_all_files_def fold_print_all g)
  have 6: "gather_files fs_demo ''/proj'' (DEFAULT_EXCLUDE_DIRS \<union> {''src''}) = [''package.json'']"
    by (simp add: gather_files_def traversal_def walk_root_def
        scandir_def fs_demo_def demo_entries_def os_walk.simps dirs_of_def nondirs_of_def collect_def
        rel_path_def as_posix_def DEFAULT_EXCLUDE_DIRS_def)
  from ignore_extends_defaults[OF 1 2 3 4, of env_plain] 1 2 4 5 6 p show ?thesis
    by (simp add: print_all_files_def fold_print_all finish_def env_plain_def)
qed

subsection \<open>Symbolic links to directories\<close>

text \<open>
  C8. A symbolic link to a directory is not followed: a file whose path below the root
  passes through such a link does not have that path in the list \<^verbatim>\<open>gather_files\<close>
  returns.
\<close>

theorem symlinked_dir_not_followed:
  assumes root: "scandir fs root = Some es"
    and ok: "names_ok (Directory es)"
    and link: "resolve (Directory es) ds = Some (DirLink target)"
    and under: "resolve (Directory es) (ds @ ds' @ [f]) = Some n"
  shows "as_posix (ds @ ds' @ [f]) \<notin> set (gather_files fs root exclude_dirs)"
proof
  let ?p = "ds @ ds' @ [f]"
  assume "as_posix ?p \<in> set (gather_files fs root exclude_dirs)"
  then have mem: "join_sep ?p \<in> listed_files exclude_dirs es"
    using root by (simp add: set_gather_files as_posix_def)
  have parts: "\<forall>x \<in> set ?p. CHR ''/'' \<notin> set x"
    using names_ok_resolve[OF ok under] by blast
  from listed_files_parts[OF ok _ parts mem]
  obtain sub where "dir_at exclude_dirs es (butlast ?p) = Some sub" by auto
  moreover have "butlast ?p = ds @ ds'" by (simp add: butlast_append)
  ultimately obtain sub1 where "dir_at exclude_dirs es ds = Some sub1"
    using dir_at_append[of exclude_dirs es ds ds' sub] by auto
  then have "resolve (Directory es) ds = Some (Directory sub1)"
    by (rule dir_at_resolve)
  with link show False by simp
qed

theorem symlinked_dir_not_followed_witness:
  "scandir fs_demo ''/proj'' = Some demo_entries
   \<and> names_ok (Directory demo_entries)
   \<and> resolve (Directory demo_entries) [''vendor''] = Some (DirLink [(''lib.js'', Regular)])
   \<and> resolve (Directory demo_entries) [''vendor'', ''lib.js''] = Some Regular
   \<and> ''vendor/lib.js'' \<notin> set (gather_files fs_demo ''/proj'' {})"
proof -
  have 1: "scandir fs_demo ''/proj'' = Some demo_entries"
    by (simp add: scandir_def fs_demo_def)
  have 2: "names_ok (Directory demo_entries)"
    by (simp add: demo_entries_def)
  have 3: "resolve (Directory demo_entries) [''vendor''] = Some (DirLink [(''lib.js'', Regular)])"
    by (simp add: demo_entries_def)
  have 4: "resolve (Directory demo_entries) ([''vendor''] @ [] @ [''lib.js'']) = Some Regular"
    by (simp add: demo_entries_def)
  from symlinked_dir_not_followed[OF 1 2 3 4, of "{}"] 1 2 3 4 show ?thesis
    by (simp add: as_posix_def)
qed

subsection \<open>Determinism\<close>

text \<open>
  C9. \<^verbatim>\<open>gather_files\<close> is a function of the tree, the root and the exclude set, so two
  runs on an unchanged tree return the same list; and the list does not depend on the
  order in which the directories enumerate their entries: rearranging the entries of
  every directory of the tree, in any way, leaves the result unchanged.
\<close>

theorem gather_files_order_independent:
  assumes scan: "\<forall>es. mset (scan es) = mset es"
    and root: "fs root = Some n"
    and names: "distinct_names n"
  shows "gather_files (fs(root := Some (reorder scan n))) root exclude_dirs =
         gather_files fs root exclude_dirs"
proof (cases "listdir n")
  case None
  then have "reorder scan n = n" by (cases n) simp_all
  with root have "fs(root := Some (reorder scan n)) = fs" by auto
  then show ?thesis by simp
next
  case (Some es)
  let ?r = "\<lambda>e. (fst e, reorder scan (snd e))"
  let ?P = "\<lambda>d. d \<notin> exclude_dirs"
  from Some names have dn: "distinct_names (Directory es)" by (cases n) simp_all
  from Some have "listdir (reorder scan n) = Some (scan (map ?r es))" by (cases n) simp_all
  then have l: "gather_files (fs(root := Some (reorder scan n))) root exclude_dirs =
      sort (collect (os_walk (filter ?P) [] (scan (map ?r es))))"
    by (simp add: gather_files_def traversal_def walk_root_def scandir_def)
  from Some root have r: "gather_files fs root exclude_dirs =
      sort (collect (os_walk (filter ?P) [] es))"
    by (simp add: gather_files_def traversal_def walk_root_def scandir_def)
  from mset_collect_reorder[OF scan dn, of ?P "[]"] show ?thesis
    unfolding l r by (intro properties_for_sort) simp_all
qed

theorem gather_files_order_independent_witness:
  "(\<forall>es :: entries. mset (rev es) = mset es)
   \<and> fs_demo ''/proj'' = Some (Directory demo_entries)
   \<and> distinct_names (Directory demo_entries)
   \<and> reorder rev (Directory demo_entries) =
       Directory
         [(''vendor'', DirLink [(''lib.js'', Regular)]),
          (''src'', Directory [(''App.tsx'', Regular)]),
          (''node_modules'', Directory [(''pkg'', Directory [(''index.js'', Regular)])]),
          (''package.json'', Regular)]
   \<and> gather_files (fs_demo(''/proj'' := Some (reorder rev (Directory demo_entries)))) ''/proj''
         DEFAULT_EXCLUDE_DIRS = [''package.json'', ''src/App.tsx'']
   \<and> gather_files fs_demo ''/proj'' DEFAULT_EXCLUDE_DIRS = [''package.json'', ''src/App.tsx'']"
proof -
  have 1: "\<forall>es :: entries. mset (rev es) = mset es"
    by simp
  have 2: "fs_demo ''/proj'' = Some (Directory demo_entries)"
    by (simp add: fs_demo_def)
  have 3: "distinct_names (Directory demo_entries)"
    by (simp add: demo_entries_def)
  have 4: "reorder rev (Directory demo_entries) =
       Directory
         [(''vendor'', DirLink [(''lib.js'', Regular)]),
          (''src'', Directory [(''App.tsx'', Regular)]),
          (''node_modules'', Directory [(''pkg'', Directory [(''index.js'', Regular)])]),
          (''package.json'', Regular)]"
    by (simp add: demo_entries_def)
  have 5: "gather_files fs_demo ''/proj'' DEFAULT_EXCLUDE_DIRS = [''package.json'', ''src/App.tsx'']"
    by (simp add: gather_files_def traversal_def walk_root_def scandir_def fs_demo_def
        demo_entries_def os_walk.simps dirs_of_def nondirs_of_def collect_def rel_path_def
        as_posix_def DEFAULT_EXCLUDE_DIRS_def)
  have "gather_files (fs_demo(''/proj'' := Some (reorder rev (Directory demo_entries)))) ''/proj''
         DEFAULT_EXCLUDE_DIRS = gather_files fs_demo ''/proj'' DEFAULT_EXCLUDE_DIRS"
    using 1 2 3
    by (rule gather_files_order_independent
          [of rev fs_demo "''/proj''" "Directory demo_entries" DEFAULT_EXCLUDE_DIRS])
  with 1 2 3 4 5 show ?thesis by simp
qed

subsection \<open>The root itself\<close>

text \<open>
  C10. The exclude set does not apply to the root: when the name of the root is itself
  excluded, \<^verbatim>\<open>gather_files\<close> still walks the root. Its result is computed from the
  entries of the root alone, it is the listing of the root, and it holds every file name
  found in the root directory.
\<close>

theorem root_never_pruned:
  assumes root: "scandir fs root = Some es"
    and name: "basename root \<in> exclude_dirs"
  shows "gather_files fs root exclude_dirs =
           sort (collect (os_walk (filter (\<lambda>d. d \<notin> exclude_dirs)) [] es))
    \<and> set (gather_files fs root exclude_dirs) = listed_files exclude_dirs es
    \<and> set (nondirs_of es) \<subseteq> set (gather_files fs root exclude_dirs)"
proof -
  have 1: "gather_files fs root exclude_dirs =
           sort (collect (os_walk (filter (\<lambda>d. d \<notin> exclude_dirs)) [] es))"
    using root by (simp add: gather_files_def traversal_def walk_root_def)
  have 2: "set (gather_files fs root exclude_dirs) = listed_files exclude_dirs es"
    using root by (simp add: set_gather_files)
  have "set (nondirs_of es) \<subseteq> listed_files exclude_dirs es"
  proof
    fix f assume "f \<in> set (nondirs_of es)"
    then have "rel_path [] f \<in> listed_files exclude_dirs es"
      unfolding listed_files_def by (intro CollectI exI[of _ "[]"] exI[of _ f] exI[of _ es]) simp
    then show "f \<in> listed_files exclude_dirs es" by (simp add: rel_path_def)
  qed
  with 1 2 show ?thesis by simp
qed

theorem root_never_pruned_witness:
  "scandir fs_build ''/work/build'' =
      Some [(''out.txt'', Regular), (''build'', Directory [(''x.o'', Regular)])]
   \<and> basename ''/work/build'' \<in> DEFAULT_EXCLUDE_DIRS
   \<and> gather_files fs_build ''/work/build'' DEFAULT_EXCLUDE_DIRS = [''out.txt'']"
proof -
  have 1: "scandir fs_build ''/work/build'' =
      Some [(''out.txt'', Regular), (''build'', Directory [(''x.o'', Regular)])]"
    by (simp add: scandir_def fs_build_def)
  have 2: "basename ''/work/build'' \<in> DEFAULT_EXCLUDE_DIRS"
    by (simp add: basename_def DEFAULT_EXCLUDE_DIRS_def)
  from root_never_pruned[OF 1 2] 1 2 show ?thesis
    by (simp add: os_walk.simps dirs_of_def nondirs_of_def collect_def rel_path_def
        DEFAULT_EXCLUDE_DIRS_def)
qed

end
